theory Spec2Isabelle
  imports Main
begin

section \<open>The InitWatcher of \<^verbatim>\<open>src/modules/desktop/electron/libs/initialize.ts\<close>\<close>

text \<open>
  \<^verbatim>\<open>InitWatcher<T>\<close> memoises the promise of an asynchronous producer
  (\<^verbatim>\<open>initFunction\<close>), runs the producer through \<^verbatim>\<open>retryFunction\<close>, and
  can be reset. JavaScript runs one task at a time, so an execution is a sequence of
  events, each of which runs to completion: a call of \<^verbatim>\<open>initialize()\<close>,
  \<^verbatim>\<open>observe()\<close> or \<^verbatim>\<open>reset()\<close>, or the settling of one pending
  \<^verbatim>\<open>func()\<close> call on which a \<^verbatim>\<open>retryFunction\<close> activation is suspended.
  The producer is external: what each of its calls settles with is part of the event,
  and a call that never settles is an event that never comes. The producer is taken
  not to call back into the watcher before it returns its promise.

  \<^verbatim>\<open>initialize()\<close> and \<^verbatim>\<open>observe()\<close> are \<^verbatim>\<open>async\<close>: their caller gets a
  promise that settles as the value they return does. The model hands the caller that
  value itself, the stored promise or \<^verbatim>\<open>undefined\<close>.
\<close>

subsection \<open>Data\<close>

datatype InitState = NOT_INITIALIZED | PENDING | INITIALIZED

text \<open>
  A promise stored in \<^verbatim>\<open>initializationPromise\<close> is the end of the chain
  \<^verbatim>\<open>retryFunction(..).then(..).catch(..)\<close>. While the \<^verbatim>\<open>retryFunction\<close>
  activation that feeds it is suspended at \<^verbatim>\<open>await func()\<close> the promise is
  unsettled; \<open>Running retries currentAttempt\<close> records the arguments of that
  activation. Afterwards it is fulfilled with the value or rejected with the error.
\<close>

datatype ('e, 'a) promise = Running int int | Fulfilled 'a | Rejected 'e

text \<open>
  The object has the fields \<open>initState\<close> and \<open>initializationPromise\<close>; a promise
  is referred to by its index in \<open>promises\<close>, the promises created so far, and
  \<open>None\<close> is \<^verbatim>\<open>undefined\<close>. \<open>invocations\<close> counts the calls of
  \<^verbatim>\<open>initFunction\<close> made so far.
\<close>

record ('e, 'a) InitWatcher =
  initState :: InitState
  initializationPromise :: "nat option"
  promises :: "('e, 'a) promise list"
  invocations :: nat

subsection \<open>Operations\<close>

definition constructor :: "('e, 'a) InitWatcher" where
  "constructor =
     \<lparr>initState = NOT_INITIALIZED, initializationPromise = None, promises = [], invocations = 0\<rparr>"

text \<open>
  \<^verbatim>\<open>initialize()\<close> has no \<^verbatim>\<open>await\<close>: its body runs in one piece. In state
  \<^verbatim>\<open>NOT_INITIALIZED\<close> it calls \<^verbatim>\<open>retryFunction(this.initFunction, 3)\<close>, which
  calls \<^verbatim>\<open>func()\<close> once (with \<^verbatim>\<open>currentAttempt = 1\<close>) and suspends. It
  returns the stored field, whatever it holds.
\<close>

definition initialize :: "('e, 'a) InitWatcher \<Rightarrow> nat option \<times> ('e, 'a) InitWatcher" where
  "initialize w =
     (let w' = (if initState w = NOT_INITIALIZED
                then w\<lparr>initState := PENDING,
                       initializationPromise := Some (length (promises w)),
                       promises := promises w @ [Running 3 1],
                       invocations := Suc (invocations w)\<rparr>
                else w)
      in (initializationPromise w', w'))"

text \<open>\<^verbatim>\<open>observe()\<close> awaits \<^verbatim>\<open>this.initialize()\<close> and returns what it gave.\<close>

definition observe :: "('e, 'a) InitWatcher \<Rightarrow> nat option \<times> ('e, 'a) InitWatcher" where
  "observe w = (case initialize w of (h, w') \<Rightarrow> (h, w'))"

definition reset :: "('e, 'a) InitWatcher \<Rightarrow> ('e, 'a) InitWatcher" where
  "reset w = w\<lparr>initState := NOT_INITIALIZED, initializationPromise := None\<rparr>"

definition getState :: "('e, 'a) InitWatcher \<Rightarrow> InitState" where
  "getState w = initState w"

text \<open>
  The pending \<^verbatim>\<open>func()\<close> call of the activation feeding promise \<open>p\<close> settles with
  \<open>r\<close> (\<open>Inr\<close> a value, \<open>Inl\<close> an error). The activation resumes: it returns the
  value, and the \<^verbatim>\<open>.then\<close> handler sets \<^verbatim>\<open>INITIALIZED\<close>; or it calls
  \<^verbatim>\<open>func()\<close> again when \<^verbatim>\<open>currentAttempt < retries\<close>; or it throws, and the
  \<^verbatim>\<open>.catch\<close> handler sets \<^verbatim>\<open>NOT_INITIALIZED\<close>, clears the field and rethrows.
  The handlers write the fields of \<^verbatim>\<open>this\<close> without looking at them first.
  Nothing happens when no activation feeds \<open>p\<close>.
\<close>

definition settle :: "nat \<Rightarrow> 'e + 'a \<Rightarrow> ('e, 'a) InitWatcher \<Rightarrow> ('e, 'a) InitWatcher" where
  "settle p r w =
     (if p < length (promises w) then
        (case promises w ! p of
           Running retries currentAttempt \<Rightarrow>
             (case r of
                Inr result \<Rightarrow>
                  w\<lparr>initState := INITIALIZED, promises := (promises w)[p := Fulfilled result]\<rparr>
              | Inl error \<Rightarrow>
                  if currentAttempt < retries
                  then w\<lparr>promises := (promises w)[p := Running retries (currentAttempt + 1)],
                         invocations := Suc (invocations w)\<rparr>
                  else w\<lparr>initState := NOT_INITIALIZED, initializationPromise := None,
                         promises := (promises w)[p := Rejected error]\<rparr>)
         | Fulfilled v \<Rightarrow> w
         | Rejected e \<Rightarrow> w)
      else w)"

text \<open>
  \<^verbatim>\<open>retryFunction\<close> run from its call to its result, against a producer whose
  \<open>k\<close>-th call (counted from 0) settles with \<open>func k\<close>. \<open>calls\<close> is the number of
  calls made before; the result comes with the number made after. The two
  \<^verbatim>\<open>number\<close> arguments are integers here, as they are at the one call in
  \<^verbatim>\<open>initialize()\<close>; \<^verbatim>\<open>currentAttempt\<close> defaults to 1.
\<close>

function retryFunction ::
  "(nat \<Rightarrow> 'e + 'a) \<Rightarrow> int \<Rightarrow> int \<Rightarrow> nat \<Rightarrow> ('e + 'a) \<times> nat" where
  "retryFunction func retries currentAttempt calls =
     (case func calls of
        Inr result \<Rightarrow> (Inr result, Suc calls)
      | Inl error \<Rightarrow>
          if currentAttempt < retries
          then retryFunction func retries (currentAttempt + 1) (Suc calls)
          else (Inl error, Suc calls))"
  by pat_completeness auto
termination
  by (relation "measure (\<lambda>(func, retries, currentAttempt, calls). nat (retries - currentAttempt))")
     auto

subsection \<open>Executions\<close>

datatype ('e, 'a) event = Initialize | Observe | Reset | Settle nat "'e + 'a"

fun step :: "('e, 'a) InitWatcher \<Rightarrow> ('e, 'a) event \<Rightarrow> ('e, 'a) InitWatcher" where
  "step w Initialize = snd (initialize w)"
| "step w Observe = snd (observe w)"
| "step w Reset = reset w"
| "step w (Settle p r) = settle p r w"

fun exec :: "('e, 'a) InitWatcher \<Rightarrow> ('e, 'a) event list \<Rightarrow> ('e, 'a) InitWatcher" where
  "exec w [] = w"
| "exec w (e # es) = exec (step w e) es"

text \<open>The promises handed to the callers of an execution, in the order of the calls.\<close>

fun returned :: "('e, 'a) InitWatcher \<Rightarrow> ('e, 'a) event \<Rightarrow> nat option list" where
  "returned w Initialize = [fst (initialize w)]"
| "returned w Observe = [fst (observe w)]"
| "returned w Reset = []"
| "returned w (Settle p r) = []"

fun handles :: "('e, 'a) InitWatcher \<Rightarrow> ('e, 'a) event list \<Rightarrow> nat option list" where
  "handles w [] = []"
| "handles w (e # es) = returned w e @ handles (step w e) es"

text \<open>
  What a caller that awaits the returned handle \<open>h\<close> has got in world \<open>w\<close>:
  \<open>None\<close> while the promise is unsettled, \<open>Some (Inl e)\<close> when the await throws \<open>e\<close>,
  \<open>Some (Inr (Some v))\<close> when it yields \<open>v\<close>, and \<open>Some (Inr None)\<close> when the handle
  was \<^verbatim>\<open>undefined\<close>, which an await yields as it is.
\<close>

definition awaited :: "('e, 'a) InitWatcher \<Rightarrow> nat option \<Rightarrow> ('e + 'a option) option" where
  "awaited w h =
     (case h of
        None \<Rightarrow> Some (Inr None)
      | Some p \<Rightarrow>
          if p < length (promises w) then
            (case promises w ! p of
               Running retries currentAttempt \<Rightarrow> None
             | Fulfilled v \<Rightarrow> Some (Inr (Some v))
             | Rejected e \<Rightarrow> Some (Inl e))
          else None)"

text \<open>The number of \<^verbatim>\<open>retryFunction\<close> activations in flight.\<close>

fun running :: "('e, 'a) promise \<Rightarrow> bool" where
  "running (Running retries currentAttempt) = True"
| "running (Fulfilled v) = False"
| "running (Rejected e) = False"

definition active :: "('e, 'a) InitWatcher \<Rightarrow> nat" where
  "active w = length (filter running (promises w))"

subsection \<open>Notions used by the properties\<close>

text \<open>
  An event ends an activation when it settles the pending \<^verbatim>\<open>func()\<close> call of an
  activation that then returns or throws instead of retrying.
\<close>

fun completes :: "('e, 'a) InitWatcher \<Rightarrow> ('e, 'a) event \<Rightarrow> bool" where
  "completes w (Settle p r) =
     (p < length (promises w) \<and> running (promises w ! p)
      \<and> \<not> running (promises (settle p r w) ! p))"
| "completes w Initialize = False"
| "completes w Observe = False"
| "completes w Reset = False"

text \<open>
  An execution stays within one attempt when it has no \<^verbatim>\<open>reset()\<close> and no event
  of it ends an activation: it consists of calls of \<^verbatim>\<open>initialize()\<close> and
  \<^verbatim>\<open>observe()\<close> and of failed producer calls that are retried.
\<close>

fun same_attempt :: "('e, 'a) InitWatcher \<Rightarrow> ('e, 'a) event list \<Rightarrow> bool" where
  "same_attempt w [] = True"
| "same_attempt w (e # es) = (e \<noteq> Reset \<and> \<not> completes w e \<and> same_attempt (step w e) es)"

fun is_call :: "('e, 'a) event \<Rightarrow> bool" where
  "is_call Initialize = True"
| "is_call Observe = True"
| "is_call Reset = False"
| "is_call (Settle p r) = False"

text \<open>The number of \<^verbatim>\<open>reset()\<close> calls of an execution made while an activation was in flight.\<close>

fun inflight_resets :: "('e, 'a) InitWatcher \<Rightarrow> ('e, 'a) event list \<Rightarrow> nat" where
  "inflight_resets w [] = 0"
| "inflight_resets w (e # es) =
     (if e = Reset \<and> 0 < active w then 1 else 0) + inflight_resets (step w e) es"

text \<open>
  The state machine as the specification words it, to compare the code with:
  \<^verbatim>\<open>NOT_INITIALIZED --initialize()--> PENDING\<close>,
  \<^verbatim>\<open>PENDING --success--> INITIALIZED\<close>,
  \<^verbatim>\<open>PENDING --exhausted retries--> NOT_INITIALIZED\<close> and
  \<^verbatim>\<open>* --reset()--> NOT_INITIALIZED\<close>; an event may also leave the state as it is.
\<close>

fun spec_transition :: "InitState \<Rightarrow> ('e, 'a) event \<Rightarrow> InitState \<Rightarrow> bool" where
  "spec_transition s Initialize s' = (s' = s \<or> (s = NOT_INITIALIZED \<and> s' = PENDING))"
| "spec_transition s Observe s' = (s' = s \<or> (s = NOT_INITIALIZED \<and> s' = PENDING))"
| "spec_transition s Reset s' = (s' = NOT_INITIALIZED)"
| "spec_transition s (Settle p (Inr v)) s' = (s' = s \<or> (s = PENDING \<and> s' = INITIALIZED))"
| "spec_transition s (Settle p (Inl e)) s' = (s' = s \<or> (s = PENDING \<and> s' = NOT_INITIALIZED))"

text \<open>
  The stored handle fits the state: it is unset in \<^verbatim>\<open>NOT_INITIALIZED\<close>, set in
  \<^verbatim>\<open>PENDING\<close>, and when set it refers to a promise that exists.
\<close>

definition handle_ok :: "('e, 'a) InitWatcher \<Rightarrow> bool" where
  "handle_ok w =
     (case initializationPromise w of
        None \<Rightarrow> initState w \<noteq> PENDING
      | Some p \<Rightarrow> initState w \<noteq> NOT_INITIALIZED \<and> p < length (promises w))"

text \<open>The promise that an activation leaves behind when it ends with \<open>r\<close>.\<close>

fun settled :: "'e + 'a \<Rightarrow> ('e, 'a) promise" where
  "settled (Inr v) = Fulfilled v"
| "settled (Inl e) = Rejected e"

fun fulfilled :: "('e, 'a) promise \<Rightarrow> bool" where
  "fulfilled (Running retries currentAttempt) = False"
| "fulfilled (Fulfilled v) = True"
| "fulfilled (Rejected e) = False"

text \<open>
  The shape a watcher has as long as no \<^verbatim>\<open>reset()\<close> is made in flight: nothing in
  flight and no handle in \<^verbatim>\<open>NOT_INITIALIZED\<close>; exactly the stored promise in flight
  in \<^verbatim>\<open>PENDING\<close>; nothing in flight and the stored promise fulfilled in
  \<^verbatim>\<open>INITIALIZED\<close>.
\<close>

definition shape :: "('e, 'a) InitWatcher \<Rightarrow> bool" where
  "shape w =
     (case initState w of
        NOT_INITIALIZED \<Rightarrow> initializationPromise w = None \<and> active w = 0
      | PENDING \<Rightarrow>
          active w = 1
          \<and> (case initializationPromise w of
                None \<Rightarrow> False
              | Some p \<Rightarrow> p < length (promises w) \<and> running (promises w ! p))
      | INITIALIZED \<Rightarrow>
          active w = 0
          \<and> (case initializationPromise w of
                None \<Rightarrow> False
              | Some p \<Rightarrow> p < length (promises w) \<and> fulfilled (promises w ! p)))"

section \<open>Properties\<close>

subsection \<open>retryFunction, run from call to result\<close>

text \<open>
  The defining equation of \<open>retryFunction\<close> calls itself under an \<open>if\<close>, so it is
  unfolded one attempt at a time, by the three lemmas that follow.
\<close>

declare retryFunction.simps [simp del]

lemma retryFunction_success:
  "func calls = Inr v \<Longrightarrow> retryFunction func retries currentAttempt calls = (Inr v, Suc calls)"
  by (subst retryFunction.simps) simp

lemma retryFunction_retry:
  "isl (func calls) \<Longrightarrow> currentAttempt < retries \<Longrightarrow>
   retryFunction func retries currentAttempt calls =
     retryFunction func retries (currentAttempt + 1) (Suc calls)"
  by (subst retryFunction.simps) (cases "func calls"; simp)

lemma retryFunction_throw:
  "isl (func calls) \<Longrightarrow> \<not> currentAttempt < retries \<Longrightarrow>
   retryFunction func retries currentAttempt calls = (func calls, Suc calls)"
  by (subst retryFunction.simps) (cases "func calls"; simp)

lemma retryFunction_calls: "calls < snd (retryFunction func retries currentAttempt calls)"
proof (induction func retries currentAttempt calls rule: retryFunction.induct)
  case (1 func retries currentAttempt calls)
  show ?case
  proof (cases "func calls")
    case (Inr v)
    then show ?thesis by (simp add: retryFunction_success)
  next
    case (Inl e)
    show ?thesis
    proof (cases "currentAttempt < retries")
      case True
      with Inl "1.IH" have "Suc calls < snd (retryFunction func retries (currentAttempt + 1) (Suc calls))"
        by simp
      with Inl True show ?thesis by (simp add: retryFunction_retry)
    next
      case False
      with Inl show ?thesis by (simp add: retryFunction_throw)
    qed
  qed
qed

lemma retryFunction_failing:
  fixes err :: "nat \<Rightarrow> 'e"
  shows "currentAttempt \<le> retries \<Longrightarrow>
   retryFunction (\<lambda>k. Inl (err k)) retries currentAttempt calls =
     (Inl (err (calls + nat (retries - currentAttempt))) :: 'e + 'a,
      Suc (calls + nat (retries - currentAttempt)))"
proof (induction "nat (retries - currentAttempt)" arbitrary: currentAttempt calls)
  case 0
  then have "\<not> currentAttempt < retries" by simp
  with 0 show ?case by (simp add: retryFunction_throw)
next
  case (Suc n)
  then have lt: "currentAttempt < retries" by simp
  from Suc have n: "n = nat (retries - (currentAttempt + 1))" by simp
  from Suc.hyps(1) [OF n, of "Suc calls"] lt
  have "retryFunction (\<lambda>k. Inl (err k)) retries (currentAttempt + 1) (Suc calls) =
     (Inl (err (Suc calls + n)) :: 'e + 'a, Suc (Suc calls + n))"
    using n by simp
  moreover have "nat (retries - currentAttempt) = Suc n" using Suc.hyps(2) by simp
  ultimately show ?case using lt by (simp add: retryFunction_retry)
qed

subsection \<open>One event on a watcher given by its fields\<close>

lemma initialize_fresh:
  "initialize \<lparr>initState = NOT_INITIALIZED, initializationPromise = h, promises = ps, invocations = n\<rparr>
   = (Some (length ps),
      \<lparr>initState = PENDING, initializationPromise = Some (length ps),
       promises = ps @ [Running 3 1], invocations = Suc n\<rparr>)"
  by (simp add: initialize_def)

lemma initialize_joined:
  "s \<noteq> NOT_INITIALIZED \<Longrightarrow>
   initialize \<lparr>initState = s, initializationPromise = h, promises = ps, invocations = n\<rparr>
   = (h, \<lparr>initState = s, initializationPromise = h, promises = ps, invocations = n\<rparr>)"
  by (simp add: initialize_def)

lemma observe_initialize: "observe w = initialize w"
  by (simp add: observe_def)

lemma settle_success:
  "p < length ps \<Longrightarrow> ps ! p = Running retries a \<Longrightarrow>
   settle p (Inr v) \<lparr>initState = s, initializationPromise = h, promises = ps, invocations = n\<rparr>
   = \<lparr>initState = INITIALIZED, initializationPromise = h, promises = ps[p := Fulfilled v],
      invocations = n\<rparr>"
  by (simp add: settle_def)

lemma settle_retry:
  "p < length ps \<Longrightarrow> ps ! p = Running retries a \<Longrightarrow> a < retries \<Longrightarrow>
   settle p (Inl e) \<lparr>initState = s, initializationPromise = h, promises = ps, invocations = n\<rparr>
   = \<lparr>initState = s, initializationPromise = h, promises = ps[p := Running retries (a + 1)],
      invocations = Suc n\<rparr>"
  by (simp add: settle_def)

lemma settle_failure:
  "p < length ps \<Longrightarrow> ps ! p = Running retries a \<Longrightarrow> \<not> a < retries \<Longrightarrow>
   settle p (Inl e) \<lparr>initState = s, initializationPromise = h, promises = ps, invocations = n\<rparr>
   = \<lparr>initState = NOT_INITIALIZED, initializationPromise = None, promises = ps[p := Rejected e],
      invocations = n\<rparr>"
  by (simp add: settle_def)

lemma reset_fields:
  "reset \<lparr>initState = s, initializationPromise = h, promises = ps, invocations = n\<rparr>
   = \<lparr>initState = NOT_INITIALIZED, initializationPromise = None, promises = ps, invocations = n\<rparr>"
  by (simp add: reset_def)

lemmas steps = initialize_fresh initialize_joined observe_initialize settle_success settle_retry
  settle_failure reset_fields getState_def awaited_def

subsection \<open>Executions: what every reachable watcher satisfies\<close>

lemmas ops = initialize_def observe_def reset_def settle_def

lemma exec_append: "exec w (es @ es') = exec (exec w es) es'"
  by (induction es arbitrary: w) simp_all

lemma handle_ok_step: "handle_ok w \<Longrightarrow> handle_ok (step w e)"
proof (cases e)
  case (Settle p r)
  assume "handle_ok w"
  then show ?thesis
    unfolding Settle
    by (cases "promises w ! p"; cases r)
       (auto simp add: handle_ok_def settle_def split: option.splits)
qed (auto simp add: handle_ok_def ops split: option.splits)

lemma handle_ok_exec: "handle_ok w \<Longrightarrow> handle_ok (exec w es)"
  by (induction es arbitrary: w) (simp_all add: handle_ok_step)

lemma handle_ok_reachable: "handle_ok (exec constructor es)"
  by (rule handle_ok_exec) (simp add: handle_ok_def constructor_def)

text \<open>A call does what \<open>initialize\<close> does, and a second call changes nothing more.\<close>

lemma initialize_idem:
  "initialize (snd (initialize w)) = (fst (initialize w), snd (initialize w))"
  by (simp add: initialize_def)

lemma step_call: "is_call e \<Longrightarrow> step w e = snd (initialize w) \<and> returned w e = [fst (initialize w)]"
  by (cases e) (simp_all add: observe_def)

lemma settle_kept:
  assumes "\<not> completes w (Settle p r)"
  shows "initState (settle p r w) = initState w
    \<and> initializationPromise (settle p r w) = initializationPromise w
    \<and> length (promises (settle p r w)) = length (promises w)"
  using assms
  by (cases "promises w ! p"; cases r) (auto simp add: settle_def)

lemma settle_kept_initialize:
  assumes "\<not> completes w (Settle p r)"
  shows "fst (initialize (settle p r w)) = fst (initialize w)
    \<and> length (promises (snd (initialize (settle p r w)))) = length (promises (snd (initialize w)))"
  using settle_kept [OF assms] by (simp add: initialize_def)

lemma same_attempt_step:
  assumes "e \<noteq> Reset" "\<not> completes w e" "initState w \<noteq> INITIALIZED"
  shows "initState (step w e) \<noteq> INITIALIZED
    \<and> fst (initialize (step w e)) = fst (initialize w)
    \<and> length (promises (snd (initialize (step w e)))) = length (promises (snd (initialize w)))
    \<and> (\<forall>h\<in>set (returned w e). h = fst (initialize w))
    \<and> (returned w e \<noteq> [] \<longrightarrow> initState (step w e) = PENDING)"
proof (cases e)
  case (Settle p r)
  with assms settle_kept [of w p r] settle_kept_initialize [of w p r] show ?thesis by simp
next
  case Reset
  with assms show ?thesis by simp
next
  case Initialize
  with assms show ?thesis by (cases "initState w") (simp_all add: initialize_def)
next
  case Observe
  with assms show ?thesis by (cases "initState w") (simp_all add: initialize_def observe_def)
qed

lemma pending_kept:
  "initState w = PENDING \<Longrightarrow> same_attempt w es \<Longrightarrow> initState (exec w es) = PENDING"
proof (induction es arbitrary: w)
  case Nil
  then show ?case by simp
next
  case (Cons e es)
  from Cons.prems have e: "e \<noteq> Reset" "\<not> completes w e" and rest: "same_attempt (step w e) es"
    by simp_all
  have "initState (step w e) = PENDING"
  proof (cases e)
    case (Settle p r)
    with e settle_kept [of w p r] Cons.prems(1) show ?thesis by simp
  qed (use e Cons.prems(1) in \<open>simp_all add: initialize_def observe_def\<close>)
  from Cons.IH [OF this rest] show ?case by simp
qed

lemma same_attempt_exec:
  assumes "initState w \<noteq> INITIALIZED" "same_attempt w es"
  shows "initState (exec w es) \<noteq> INITIALIZED
    \<and> fst (initialize (exec w es)) = fst (initialize w)
    \<and> length (promises (snd (initialize (exec w es)))) = length (promises (snd (initialize w)))
    \<and> (\<forall>h\<in>set (handles w es). h = fst (initialize w))
    \<and> (handles w es \<noteq> [] \<longrightarrow> initState (exec w es) = PENDING)"
  using assms
proof (induction es arbitrary: w)
  case Nil
  then show ?case by simp
next
  case (Cons e es)
  from Cons.prems have e: "e \<noteq> Reset" "\<not> completes w e" and rest: "same_attempt (step w e) es"
    by simp_all
  note s = same_attempt_step [OF e Cons.prems(1)]
  from s have ni: "initState (step w e) \<noteq> INITIALIZED" by simp
  note ih = Cons.IH [OF ni rest]
  have pend: "returned w e \<noteq> [] \<Longrightarrow> initState (exec (step w e) es) = PENDING"
    using s pending_kept [OF _ rest] by simp
  from s ih pend show ?case by auto
qed

lemma promises_grow: "length (promises w) \<le> length (promises (snd (initialize w)))
  \<and> length (promises (snd (initialize w))) \<le> length (promises w) + 1"
  by (simp add: initialize_def)

lemma calls_only:
  "list_all is_call es \<Longrightarrow> es \<noteq> [] \<Longrightarrow> exec w es = snd (initialize w)"
proof (induction es arbitrary: w)
  case Nil
  then show ?case by simp
next
  case (Cons e es)
  then have c: "is_call e" and cs: "list_all is_call es" by simp_all
  show ?case
  proof (cases "es = []")
    case True
    with c show ?thesis by (simp add: step_call)
  next
    case False
    from Cons.IH [OF cs False, of "step w e"] c show ?thesis
      by (simp add: step_call initialize_idem)
  qed
qed

lemma calls_invocations:
  "list_all is_call es \<Longrightarrow> invocations (exec w es) \<le> invocations w + 1"
proof (cases "es = []")
  case True
  then show ?thesis by simp
next
  case False
  assume "list_all is_call es"
  from calls_only [OF this False, of w] show ?thesis by (simp add: initialize_def)
qed

text \<open>A settled promise stays as it is.\<close>

lemma awaited_step: "awaited w h = Some x \<Longrightarrow> awaited (step w e) h = Some x"
proof (cases h)
  case None
  assume "awaited w h = Some x"
  with None show ?thesis by (simp add: awaited_def)
next
  case (Some q)
  assume a: "awaited w h = Some x"
  with Some have q: "q < length (promises w)" and nr: "\<not> running (promises w ! q)"
    by (auto simp add: awaited_def split: if_splits promise.splits)
  have "q < length (promises (step w e)) \<and> promises (step w e) ! q = promises w ! q"
  proof (cases e)
    case (Settle p r)
    show ?thesis
    proof (cases "p = q")
      case True
      with nr q Settle show ?thesis by (cases "promises w ! q") (simp_all add: settle_def)
    next
      case False
      with q Settle show ?thesis
        by (cases "promises w ! p"; cases r) (auto simp add: settle_def)
    qed
  qed (use q in \<open>auto simp add: ops nth_append\<close>)
  with a Some q show ?thesis by (simp add: awaited_def)
qed

lemma awaited_exec: "awaited w h = Some x \<Longrightarrow> awaited (exec w es) h = Some x"
  by (induction es arbitrary: w) (simp_all add: awaited_step)

subsection \<open>An activation, event by event\<close>

text \<open>
  An activation, fed the outcomes of the producer's calls one event at a time, ends as
  \<open>retryFunction\<close> says: \<open>retryFunction\<close> is the same code run in one piece.
\<close>

lemma activation_follows_retryFunction:
  assumes "p < length (promises w)" and "promises w ! p = Running retries currentAttempt"
    and "retryFunction func retries currentAttempt calls = (r, calls')"
  shows "promises (exec w (map (\<lambda>k. Settle p (func k)) [calls..<calls'])) ! p = settled r
    \<and> invocations (exec w (map (\<lambda>k. Settle p (func k)) [calls..<calls']))
        = invocations w + (calls' - calls - 1)
    \<and> initState (exec w (map (\<lambda>k. Settle p (func k)) [calls..<calls']))
        = (if isl r then NOT_INITIALIZED else INITIALIZED)"
  using assms
proof (induction func retries currentAttempt calls arbitrary: w rule: retryFunction.induct)
  case (1 func retries currentAttempt calls)
  from retryFunction_calls [of calls func retries currentAttempt] "1.prems"(3)
  have lt: "calls < calls'" by simp
  then have upt: "[calls..<calls'] = calls # [Suc calls..<calls']" by (rule upt_conv_Cons)
  show ?case
  proof (cases "func calls")
    case (Inr v)
    with "1.prems" have r: "r = Inr v" "calls' = Suc calls"
      by (simp_all add: retryFunction_success)
    with Inr "1.prems"(1,2) show ?thesis
      by (simp add: settle_def)
  next
    case (Inl e)
    show ?thesis
    proof (cases "currentAttempt < retries")
      case False
      with Inl "1.prems" have r: "r = Inl e" "calls' = Suc calls"
        by (simp_all add: retryFunction_throw)
      with Inl False "1.prems"(1,2) show ?thesis
        by (simp add: settle_def)
    next
      case True
      let ?w = "settle p (Inl e) w"
      from True Inl "1.prems"(1,2)
      have w': "p < length (promises ?w)" "promises ?w ! p = Running retries (currentAttempt + 1)"
        "invocations ?w = Suc (invocations w)"
        by (simp_all add: settle_def)
      from True Inl "1.prems"(3)
      have rf: "retryFunction func retries (currentAttempt + 1) (Suc calls) = (r, calls')"
        by (simp add: retryFunction_retry)
      from retryFunction_calls [of "Suc calls" func retries "currentAttempt + 1"] rf
      have lt': "Suc calls < calls'" by simp
      from "1.IH" [OF Inl True w'(1,2) rf] w'(3) lt' Inl show ?thesis
        by (simp add: upt)
    qed
  qed
qed

subsection \<open>Activations in flight\<close>

lemma active_settled:
  assumes "p < length ps" and "running (ps ! p)"
  shows "length (filter running (ps[p := y])) =
           length (filter running ps) - 1 + (if running y then 1 else 0)
         \<and> 0 < length (filter running ps)"
proof -
  have ps: "ps = take p ps @ ps ! p # drop (Suc p) ps"
    using assms(1) by (rule id_take_nth_drop)
  have upd: "ps[p := y] = take p ps @ y # drop (Suc p) ps"
    using assms(1) by (rule upd_conv_take_nth_drop)
  have "length (filter running ps) =
          length (filter running (take p ps)) + 1 + length (filter running (drop (Suc p) ps))"
    by (subst ps) (simp add: assms(2))
  moreover have "length (filter running (ps[p := y])) =
          length (filter running (take p ps)) + (if running y then 1 else 0)
          + length (filter running (drop (Suc p) ps))"
    by (subst upd) simp
  ultimately show ?thesis by simp
qed

lemma active_initialize:
  "active (snd (initialize w)) = active w + (if initState w = NOT_INITIALIZED then 1 else 0)"
  by (simp add: initialize_def active_def)

lemma initState_initialize:
  "initState (snd (initialize w)) = (if initState w = NOT_INITIALIZED then PENDING else initState w)"
  by (simp add: initialize_def)

lemma active_reset: "active (reset w) = active w"
  by (simp add: reset_def active_def)

lemma initState_reset: "initState (reset w) = NOT_INITIALIZED"
  by (simp add: reset_def)

lemma active_settle:
  "active (settle p r w) =
     (if completes w (Settle p r) then active w - 1 else active w)
   \<and> (completes w (Settle p r) \<longrightarrow> 0 < active w)"
proof (cases "p < length (promises w) \<and> running (promises w ! p)")
  case False
  then show ?thesis by (cases "promises w ! p") (auto simp add: settle_def)
next
  case True
  then obtain n a where run: "promises w ! p = Running n a" and p: "p < length (promises w)"
    by (cases "promises w ! p") auto
  from True have r: "running (promises w ! p)" by simp
  note upd = active_settled [OF p r]
  show ?thesis
    using run p upd [of "Fulfilled v" for v] upd [of "Rejected e" for e] upd [of "Running n (a + 1)"]
    by (cases r) (auto simp add: settle_def active_def)
qed

lemma active_settle_completes:
  "completes w (Settle p r) \<Longrightarrow> active (settle p r w) = active w - 1 \<and> 0 < active w"
  using active_settle [of p r w] by (simp del: completes.simps)

lemma active_settle_kept:
  "\<not> completes w (Settle p r) \<Longrightarrow> active (settle p r w) = active w"
  using active_settle [of p r w] by (simp del: completes.simps)

text \<open>
  Activations in flight are bounded by a budget \<open>k\<close>, plus one unless the state is
  \<^verbatim>\<open>NOT_INITIALIZED\<close>; a \<^verbatim>\<open>reset()\<close> made in flight raises the budget by one.
\<close>

lemma budget_step:
  assumes "active w \<le> k + (if initState w = NOT_INITIALIZED then 0 else 1)"
  shows "active (step w e) \<le> k + (if e = Reset \<and> 0 < active w then 1 else 0)
           + (if initState (step w e) = NOT_INITIALIZED then 0 else 1)"
proof (cases e)
  case Initialize
  with assms show ?thesis
    by (auto simp add: active_initialize initState_initialize split: if_splits)
next
  case Observe
  with assms show ?thesis
    by (auto simp add: active_initialize initState_initialize observe_initialize split: if_splits)
next
  case Reset
  with assms show ?thesis
    by (auto simp add: active_reset initState_reset split: if_splits)
next
  case (Settle p r)
  show ?thesis
  proof (cases "completes w (Settle p r)")
    case True
    from active_settle_completes [OF True]
    have "active (settle p r w) = active w - 1" "0 < active w"
      by simp_all
    with assms Settle show ?thesis
      by (simp split: if_splits) arith+
  next
    case False
    from active_settle_kept [OF False] have "active (settle p r w) = active w" .
    moreover from settle_kept [OF False] have "initState (settle p r w) = initState w"
      by simp
    ultimately show ?thesis
      using assms Settle by simp
  qed
qed

lemma budget_exec:
  "active w \<le> k + (if initState w = NOT_INITIALIZED then 0 else 1) \<Longrightarrow>
   active (exec w es) \<le> k + inflight_resets w es
     + (if initState (exec w es) = NOT_INITIALIZED then 0 else 1)"
proof (induction es arbitrary: w k)
  case Nil
  then show ?case by simp
next
  case (Cons e es)
  from Cons.IH [OF budget_step [OF Cons.prems, of e]] show ?case
    by (simp add: add.assoc)
qed

subsection \<open>Executions without a reset in flight\<close>

lemma one_running:
  assumes one: "length (filter running ps) = 1"
    and p: "p < length ps" "running (ps ! p)" and q: "q < length ps" "running (ps ! q)"
  shows "p = q"
proof (rule ccontr)
  assume ne: "p \<noteq> q"
  from active_settled [OF p, of "Rejected undefined"] one
  have "filter running (ps[p := Rejected undefined]) = []" by simp
  then have "\<forall>x\<in>set (ps[p := Rejected undefined]). \<not> running x"
    by (simp add: filter_empty_conv)
  moreover from q ne have "ps[p := Rejected undefined] ! q = ps ! q"
    "q < length (ps[p := Rejected undefined])" by simp_all
  ultimately show False using q(2) by (metis nth_mem)
qed

lemma inflight_resets_append:
  "inflight_resets w (es @ es') = inflight_resets w es + inflight_resets (exec w es) es'"
  by (induction es arbitrary: w) simp_all

lemma settle_idle_any:
  "\<not> (p < length (promises w) \<and> running (promises w ! p)) \<Longrightarrow> settle p r w = w"
  by (cases "promises w ! p") (auto simp add: settle_def)

lemma spec_transition_same: "spec_transition s (Settle p r) s"
  by (cases r) simp_all

lemma shape_settle:
  assumes sh: "shape w" and p: "p < length (promises w)" and run: "promises w ! p = Running n a"
  shows "shape (settle p r w)
    \<and> spec_transition (initState w) (Settle p r) (initState (settle p r w))"
proof -
  from run have r: "running (promises w ! p)" by simp
  from active_settled [OF p r] have pos: "0 < active w" by (simp add: active_def)
  with sh have pend: "initState w = PENDING"
    by (cases "initState w") (simp_all add: shape_def)
  with sh obtain q where q: "initializationPromise w = Some q" "q < length (promises w)"
    "running (promises w ! q)" and one: "active w = 1"
    by (auto simp add: shape_def split: option.splits)
  from one_running [OF _ p r q(2,3)] one have pq: "q = p" by (simp add: active_def)
  note upd = active_settled [OF p r]
  show ?thesis
  proof (cases r)
    case (Inr v)
    with p run pend q pq one upd [of "Fulfilled v"] show ?thesis
      by (simp add: settle_def shape_def active_def)
  next
    case (Inl e)
    show ?thesis
    proof (cases "a < n")
      case True
      with Inl p run pend q pq one upd [of "Running n (a + 1)"] show ?thesis
        by (simp add: settle_def shape_def active_def)
    next
      case False
      with Inl p run pend q pq one upd [of "Rejected e"] show ?thesis
        by (simp add: settle_def shape_def active_def)
    qed
  qed
qed

lemma shape_step:
  assumes sh: "shape w" and quiet: "\<not> (e = Reset \<and> 0 < active w)"
  shows "shape (step w e) \<and> spec_transition (initState w) e (initState (step w e))"
proof (cases e)
  case Initialize
  with sh show ?thesis
    by (cases "initState w") (simp_all add: shape_def initialize_def active_def)
next
  case Observe
  with sh show ?thesis
    by (cases "initState w") (simp_all add: shape_def initialize_def observe_def active_def)
next
  case Reset
  with sh quiet show ?thesis
    by (simp add: shape_def reset_def active_def)
next
  case (Settle p r)
  show ?thesis
  proof (cases "p < length (promises w) \<and> running (promises w ! p)")
    case False
    from settle_idle_any [OF False] sh Settle show ?thesis
      by (simp add: spec_transition_same)
  next
    case True
    then obtain n a where "promises w ! p = Running n a"
      by (cases "promises w ! p") auto
    with shape_settle [OF sh, of p n a r] True Settle show ?thesis by simp
  qed
qed

lemma shape_exec: "shape w \<Longrightarrow> inflight_resets w es = 0 \<Longrightarrow> shape (exec w es)"
proof (induction es arbitrary: w)
  case Nil
  then show ?case by simp
next
  case (Cons e es)
  from Cons.prems(2) have q: "\<not> (e = Reset \<and> 0 < active w)" and rest: "inflight_resets (step w e) es = 0"
    by (simp_all split: if_splits)
  from shape_step [OF Cons.prems(1) q] have "shape (step w e)" by simp
  from Cons.IH [OF this rest] show ?case by simp
qed

lemma shape_constructor: "shape constructor"
  by (simp add: shape_def constructor_def active_def)

text \<open>
  Without a \<^verbatim>\<open>reset()\<close> made in flight: \<^verbatim>\<open>INITIALIZED\<close> comes with a handle that
  is set and fulfilled, every step is a transition of the specification's state
  machine, and what is cached stays until the next \<^verbatim>\<open>reset()\<close>.
\<close>

lemma quiet_initialized:
  assumes "inflight_resets constructor es = 0" and "initState (exec constructor es) = INITIALIZED"
  shows "\<exists>p v. initializationPromise (exec constructor es) = Some p
    \<and> fst (initialize (exec constructor es)) = Some p
    \<and> awaited (exec constructor es) (Some p) = Some (Inr (Some v))"
proof -
  from shape_exec [OF shape_constructor assms(1)] assms(2)
  obtain p where p: "initializationPromise (exec constructor es) = Some p"
    "p < length (promises (exec constructor es))" "fulfilled (promises (exec constructor es) ! p)"
    by (auto simp add: shape_def split: option.splits)
  from p(3) obtain v where "promises (exec constructor es) ! p = Fulfilled v"
    by (cases "promises (exec constructor es) ! p") auto
  with p assms(2) show ?thesis
    by (simp add: initialize_def awaited_def)
qed

lemma quiet_transitions:
  assumes "inflight_resets constructor (es @ [e]) = 0"
  shows "spec_transition (initState (exec constructor es)) e
           (initState (exec constructor (es @ [e])))"
proof -
  from assms have q: "inflight_resets constructor es = 0"
    and e: "\<not> (e = Reset \<and> 0 < active (exec constructor es))"
    by (simp_all add: inflight_resets_append split: if_splits)
  from shape_step [OF shape_exec [OF shape_constructor q] e] show ?thesis
    by (simp add: exec_append)
qed

lemma cached:
  assumes "shape w" and "initState w = INITIALIZED" and "Reset \<notin> set es"
  shows "exec w es = w \<and> (\<forall>h\<in>set (handles w es). h = initializationPromise w)"
  using assms(3)
proof (induction es)
  case Nil
  then show ?case by simp
next
  case (Cons e es)
  from assms(1,2) have idle: "active w = 0" by (simp add: shape_def)
  have "step w e = w \<and> (\<forall>h\<in>set (returned w e). h = initializationPromise w)"
  proof (cases e)
    case (Settle p r)
    have "\<not> (p < length (promises w) \<and> running (promises w ! p))"
    proof
      assume "p < length (promises w) \<and> running (promises w ! p)"
      then have "0 < active w" using active_settled [of p "promises w"] by (simp add: active_def)
      with idle show False by simp
    qed
    from settle_idle_any [OF this] Settle show ?thesis by simp
  next
    case Reset
    with Cons.prems show ?thesis by simp
  qed (use assms(2) in \<open>simp_all add: initialize_def observe_def\<close>)
  with Cons show ?case by auto
qed

lemma quiet_cache:
  assumes "inflight_resets constructor es = 0" and "initState (exec constructor es) = INITIALIZED"
    and "Reset \<notin> set es'"
  shows "exec constructor (es @ es') = exec constructor es
    \<and> (\<forall>h\<in>set (handles (exec constructor es) es'). h = initializationPromise (exec constructor es))"
  using cached [OF shape_exec [OF shape_constructor assms(1)] assms(2,3)]
  by (simp add: exec_append)

text \<open>
  Without a \<^verbatim>\<open>reset()\<close> made in flight the only activation that can end is the
  one the watcher tracks.
\<close>

lemma quiet_completes_tracked:
  assumes "inflight_resets constructor es = 0"
    and "completes (exec constructor es) (Settle p r)"
  shows "initState (exec constructor es) = PENDING
    \<and> initializationPromise (exec constructor es) = Some p"
proof -
  let ?w = "exec constructor es"
  from shape_exec [OF shape_constructor assms(1)] have sh: "shape ?w" .
  from assms(2) have p: "p < length (promises ?w)" and r: "running (promises ?w ! p)"
    by simp_all
  from active_settled [OF p r] have pos: "0 < active ?w" by (simp add: active_def)
  with sh have pend: "initState ?w = PENDING"
    by (cases "initState ?w") (simp_all add: shape_def)
  with sh obtain q where q: "initializationPromise ?w = Some q" "q < length (promises ?w)"
    "running (promises ?w ! q)" and one: "active ?w = 1"
    by (auto simp add: shape_def split: option.splits)
  from one_running [OF _ p r q(2,3)] one have "q = p" by (simp add: active_def)
  with pend q show ?thesis by simp
qed

subsection \<open>reset\<close>

text \<open>
  C8: in every state \<^verbatim>\<open>reset()\<close> sets the state to \<^verbatim>\<open>NOT_INITIALIZED\<close> and
  clears the stored handle, touching nothing else; on a watcher on which nothing has
  run yet it changes nothing.
\<close>

theorem reset_clears:
  "initState (reset w) = NOT_INITIALIZED
   \<and> getState (reset w) = NOT_INITIALIZED
   \<and> initializationPromise (reset w) = None
   \<and> promises (reset w) = promises w
   \<and> invocations (reset w) = invocations w
   \<and> reset (constructor :: ('e, 'a) InitWatcher) = constructor
   \<and> step w Reset = reset w \<and> returned w Reset = []"
  by (simp add: reset_def getState_def constructor_def)

subsection \<open>observe\<close>

text \<open>
  C9: \<^verbatim>\<open>observe()\<close> is \<^verbatim>\<open>initialize()\<close>: in every state it returns the same
  handle and leaves the same state behind, so its caller gets the same value or error.
\<close>

theorem observe_is_initialize:
  "observe w = initialize w
   \<and> step w Observe = step w Initialize
   \<and> returned w Observe = returned w Initialize
   \<and> awaited w' (fst (observe w)) = awaited w' (fst (initialize w))"
  by (simp add: observe_def split: prod.splits)

subsection \<open>retryFunction always makes an attempt\<close>

text \<open>
  C10: \<^verbatim>\<open>retryFunction(func, retries)\<close> (so \<^verbatim>\<open>currentAttempt = 1\<close>) calls
  \<^verbatim>\<open>func\<close> at least once whatever \<open>retries\<close> is. When \<open>retries \<le> 1\<close> and every
  call fails with \<open>e\<close>, there is exactly one call and \<open>e\<close> is thrown. When
  \<open>1 \<le> retries\<close> and the \<open>k\<close>-th call fails with \<open>err k\<close>, there are exactly
  \<open>retries\<close> calls and the error of the last one is thrown.
\<close>

theorem retryFunction_at_least_once:
  fixes func :: "nat \<Rightarrow> 'e + 'a" and e :: 'e and err :: "nat \<Rightarrow> 'e"
  shows "calls < snd (retryFunction func retries 1 calls)
   \<and> (retries \<le> 1 \<longrightarrow>
        retryFunction (\<lambda>k. Inl e) retries 1 calls = (Inl e :: 'e + 'a, calls + 1))
   \<and> (1 \<le> retries \<longrightarrow>
        retryFunction (\<lambda>k. Inl (err k)) retries 1 calls =
          (Inl (err (calls + nat retries - 1)) :: 'e + 'a, calls + nat retries))"
proof (intro conjI impI)
  show "calls < snd (retryFunction func retries 1 calls)" by (rule retryFunction_calls)
next
  assume "retries \<le> 1"
  then have "\<not> 1 < retries" by simp
  then show "retryFunction (\<lambda>k. Inl e) retries 1 calls = (Inl e :: 'e + 'a, calls + 1)"
    by (simp add: retryFunction_throw)
next
  assume r: "1 \<le> retries"
  then have "nat (retries - 1) = nat retries - 1" by simp
  moreover from r have "0 < nat retries" by simp
  ultimately show "retryFunction (\<lambda>k. Inl (err k)) retries 1 calls =
          (Inl (err (calls + nat retries - 1)) :: 'e + 'a, calls + nat retries)"
    using retryFunction_failing [OF r, of err calls, where ?'a = 'a] by simp
qed

theorem retryFunction_at_least_once_witness:
  "retryFunction (\<lambda>k. Inl (7::nat)) 0 1 0 = (Inl 7 :: nat + nat, 1)
   \<and> retryFunction (\<lambda>k. Inl (7::nat)) (- 2) 1 5 = (Inl 7 :: nat + nat, 6)
   \<and> retryFunction (\<lambda>k. Inl (10 + k)) 3 1 0 = (Inl 12 :: nat + nat, 3)
   \<and> retryFunction (\<lambda>k. Inl (10 + k)) 1 1 0 = (Inl 10 :: nat + nat, 1)"
  using retryFunction_at_least_once [of 0 "\<lambda>k. Inl 7 :: nat + nat" 0 7 id]
    retryFunction_at_least_once [of 5 "\<lambda>k. Inl 7 :: nat + nat" "- 2" 7 id]
    retryFunction_at_least_once [of 0 "\<lambda>k. Inl 7 :: nat + nat" 3 7 "\<lambda>k. 10 + k"]
    retryFunction_at_least_once [of 0 "\<lambda>k. Inl 7 :: nat + nat" 1 7 "\<lambda>k. 10 + k"]
  by simp

subsection \<open>The retry bound\<close>

text \<open>
  C2: when the producer fails on its first two calls and succeeds on the third, one
  \<^verbatim>\<open>initialize()\<close> call succeeds with the third call's value after exactly three
  producer calls: one made by \<^verbatim>\<open>initialize()\<close> itself and one made in the very
  step that handles each failure, with nothing in between. The same holds of
  \<^verbatim>\<open>retryFunction(func, 3)\<close> run on its own.
\<close>

theorem two_failures_then_success:
  fixes w :: "('e, 'a) InitWatcher" and func :: "nat \<Rightarrow> 'e + 'a"
  assumes "initState w = NOT_INITIALIZED"
    and "func calls = Inl e1" and "func (calls + 1) = Inl e2" and "func (calls + 2) = Inr v"
  shows "(let p = length (promises w);
              es = [Initialize, Settle p (func calls), Settle p (func (calls + 1)),
                    Settle p (func (calls + 2))];
              w' = exec w es
          in handles w es = [Some p]
             \<and> getState w' = INITIALIZED
             \<and> initializationPromise w' = Some p
             \<and> awaited w' (Some p) = Some (Inr (Some v))
             \<and> invocations (exec w (take 1 es)) = invocations w + 1
             \<and> invocations (exec w (take 2 es)) = invocations w + 2
             \<and> invocations (exec w (take 3 es)) = invocations w + 3
             \<and> invocations w' = invocations w + 3)
         \<and> retryFunction func 3 1 calls = (Inr v, calls + 3)"
proof (cases w)
  case (fields s h ps n)
  with assms show ?thesis
    by (simp add: steps Let_def retryFunction_retry retryFunction_success)
qed

theorem two_failures_then_success_witness:
  "(let w = constructor :: (string, nat) InitWatcher;
        es = [Initialize, Settle 0 (Inl ''offline''), Settle 0 (Inl ''timeout''), Settle 0 (Inr 7)]
    in handles w es = [Some 0]
       \<and> getState (exec w es) = INITIALIZED
       \<and> awaited (exec w es) (Some 0) = Some (Inr (Some 7))
       \<and> invocations (exec w es) = 3)
   \<and> retryFunction (\<lambda>k. if k = 0 then Inl ''offline'' else if k = 1 then Inl ''timeout'' else Inr (7::nat)) 3 1 0
       = (Inr 7, 3)"
  using two_failures_then_success [of "constructor :: (string, nat) InitWatcher"
      "\<lambda>k. if k = 0 then Inl ''offline'' else if k = 1 then Inl ''timeout'' else Inr (7::nat)"
      0 "''offline''" "''timeout''" 7]
  by (simp add: constructor_def steps Let_def)



subsection \<open>Callers within one attempt\<close>

text \<open>
  Take a reachable watcher that is in state \<^verbatim>\<open>NOT_INITIALIZED\<close> or
  \<^verbatim>\<open>PENDING\<close>, and any number of \<^verbatim>\<open>initialize()\<close> and \<^verbatim>\<open>observe()\<close> calls,
  interleaved with producer failures that are retried, with no \<^verbatim>\<open>reset()\<close> and no
  activation ending in between, be it the tracked one or one that a \<^verbatim>\<open>reset()\<close>
  detached. Then at most one \<^verbatim>\<open>retryFunction\<close> activation is started and every
  caller is handed one and the same existing promise; so at any later time any two
  callers have received the same thing, and what one has received (a value or an
  error) is what any other receives from then on.
\<close>

lemma single_flight:
  assumes "w = exec constructor pre" and "initState w \<noteq> INITIALIZED" and "same_attempt w es"
  shows "length (promises (exec w es)) \<le> length (promises w) + 1
    \<and> (list_all is_call es \<longrightarrow> invocations (exec w es) \<le> invocations w + 1)
    \<and> (\<exists>p. \<forall>h\<in>set (handles w es). h = Some p \<and> p < length (promises (exec w es)))
    \<and> (\<forall>h\<in>set (handles w es). \<forall>h'\<in>set (handles w es).
          awaited (exec w (es @ post)) h = awaited (exec w (es @ post)) h'
          \<and> (\<forall>x. awaited (exec w (es @ post)) h = Some x \<longrightarrow>
                 awaited (exec w (es @ post @ later)) h' = Some x))"
proof -
  note sa = same_attempt_exec [OF assms(2,3)]
  have len: "length (promises (exec w es)) \<le> length (promises w) + 1"
    using sa promises_grow [of w] promises_grow [of "exec w es"] by simp
  have same: "\<forall>h\<in>set (handles w es). h = fst (initialize w)"
    using sa by simp
  have ex: "\<exists>p. \<forall>h\<in>set (handles w es). h = Some p \<and> p < length (promises (exec w es))"
  proof (cases "handles w es = []")
    case True
    then show ?thesis by simp
  next
    case False
    with sa have pend: "initState (exec w es) = PENDING" by simp
    have "handle_ok (exec w es)"
      unfolding assms(1) exec_append [symmetric] by (rule handle_ok_reachable)
    with pend obtain p where p: "initializationPromise (exec w es) = Some p"
      "p < length (promises (exec w es))"
      by (auto simp add: handle_ok_def split: option.splits)
    from pend p have "fst (initialize (exec w es)) = Some p" by (simp add: initialize_def)
    with sa have "fst (initialize w) = Some p" by simp
    with same p show ?thesis by auto
  qed
  have stable: "\<forall>h\<in>set (handles w es). \<forall>h'\<in>set (handles w es).
          awaited (exec w (es @ post)) h = awaited (exec w (es @ post)) h'
          \<and> (\<forall>x. awaited (exec w (es @ post)) h = Some x \<longrightarrow>
                 awaited (exec w (es @ post @ later)) h' = Some x)"
  proof (intro ballI conjI allI impI)
    fix h h' x
    assume h: "h \<in> set (handles w es)" "h' \<in> set (handles w es)"
    from same h(1) have "h = fst (initialize w)" by (rule bspec)
    moreover from same h(2) have "h' = fst (initialize w)" by (rule bspec)
    ultimately have eq: "h' = h" by simp
    then show "awaited (exec w (es @ post)) h = awaited (exec w (es @ post)) h'" by simp
    assume "awaited (exec w (es @ post)) h = Some x"
    from awaited_exec [OF this, of later] eq
    show "awaited (exec w (es @ post @ later)) h' = Some x"
      by (simp add: exec_append)
  qed
  from len calls_invocations ex stable show ?thesis by blast
qed


lemma single_flight_example:
  "(let pre = [Initialize, Settle 0 (Inl ''a''), Settle 0 (Inl ''b''), Settle 0 (Inl ''c'')];
        w = exec (constructor :: (string, nat) InitWatcher) pre;
        es = [Observe, Observe, Settle 1 (Inl ''d''), Initialize];
        post = [Settle 1 (Inl ''e''), Settle 1 (Inr 7)];
        later = [Reset, Initialize]
    in initState w = NOT_INITIALIZED \<and> same_attempt w es
       \<and> length (promises (exec w es)) = length (promises w) + 1
       \<and> handles w es = [Some 1, Some 1, Some 1]
       \<and> awaited (exec w (es @ post)) (Some 1) = Some (Inr (Some 7))
       \<and> awaited (exec w (es @ post @ later)) (Some 1) = Some (Inr (Some 7)))"
proof -
  define pre :: "(string, nat) event list" where
    "pre = [Initialize, Settle 0 (Inl ''a''), Settle 0 (Inl ''b''), Settle 0 (Inl ''c'')]"
  define w where "w = exec (constructor :: (string, nat) InitWatcher) pre"
  define es :: "(string, nat) event list" where
    "es = [Observe, Observe, Settle 1 (Inl ''d''), Initialize]"
  have w: "w = \<lparr>initState = NOT_INITIALIZED, initializationPromise = None,
                promises = [Rejected ''c''], invocations = 3\<rparr>"
    by (simp add: w_def pre_def constructor_def steps)
  have ni: "initState w \<noteq> INITIALIZED" by (simp add: w)
  have sa: "same_attempt w es" by (simp add: w es_def steps)
  note t = single_flight [OF w_def ni sa,
      of "[Settle 1 (Inl ''e''), Settle 1 (Inr 7)]" "[Reset, Initialize]"]
  have h: "handles w es = [Some 1, Some 1, Some 1]" by (simp add: w es_def steps)
  have p: "awaited (exec w (es @ [Settle 1 (Inl ''e''), Settle 1 (Inr 7)])) (Some 1)
        = Some (Inr (Some 7))"
    by (simp add: w es_def steps)
  from t h p have "awaited (exec w (es @ [Settle 1 (Inl ''e''), Settle 1 (Inr 7)] @ [Reset, Initialize]))
      (Some 1) = Some (Inr (Some 7))"
    by simp
  moreover have "length (promises (exec w es)) = length (promises w) + 1"
    by (simp add: w es_def steps)
  ultimately show ?thesis
    using ni sa h p unfolding Let_def w_def [symmetric] pre_def [symmetric] es_def [symmetric]
    by (simp add: w)
qed

subsection \<open>Activations in flight at one time\<close>

text \<open>
  C6, amended: \<^verbatim>\<open>reset()\<close> cancels nothing; it only makes the next
  \<^verbatim>\<open>initialize()\<close> start a new activation. So the number of \<^verbatim>\<open>retryFunction\<close>
  activations in flight is at most one more than the number of \<^verbatim>\<open>reset()\<close> calls
  made while an activation was in flight; in an execution without such a
  \<^verbatim>\<open>reset()\<close> at most one activation is in flight at any time.
\<close>

theorem active_bound:
  fixes es :: "('e, 'a) event list"
  shows "active (exec constructor es) \<le> 1 + inflight_resets constructor es
   \<and> (inflight_resets constructor es = 0 \<longrightarrow> active (exec constructor es) \<le> 1)"
proof -
  have "active (constructor :: ('e, 'a) InitWatcher)
          \<le> 0 + (if initState (constructor :: ('e, 'a) InitWatcher) = NOT_INITIALIZED then 0 else 1)"
    by (simp add: active_def constructor_def)
  from budget_exec [OF this, of es] show ?thesis
    by (simp split: if_splits)
qed

theorem active_bound_witness:
  "inflight_resets (constructor :: (string, nat) InitWatcher)
      [Initialize, Observe, Settle 0 (Inr 7), Reset, Initialize] = 0
   \<and> active (exec (constructor :: (string, nat) InitWatcher)
      [Initialize, Observe, Settle 0 (Inr 7), Reset, Initialize]) \<le> 1"
proof -
  have 0: "inflight_resets (constructor :: (string, nat) InitWatcher)
      [Initialize, Observe, Settle 0 (Inr 7), Reset, Initialize] = 0"
    by (simp add: constructor_def steps active_def)
  with active_bound [of "[Initialize, Observe, Settle 0 (Inr 7), Reset, Initialize]
      :: (string, nat) event list"]
  show ?thesis by simp
qed

theorem two_activations_after_reset:
  "\<not> active (exec (constructor :: (string, nat) InitWatcher) [Initialize, Reset, Initialize]) \<le> 1"
  by (simp add: constructor_def steps active_def)

subsection \<open>A completion that arrives after a reset\<close>

text \<open>
  C1: after \<^verbatim>\<open>initialize(); reset()\<close> a first caller's \<^verbatim>\<open>observe()\<close> starts a new
  attempt and is handed its promise. The detached activation then fails for the third
  time, and its \<^verbatim>\<open>.catch\<close> handler clears the state and the handle of the attempt
  in flight. A second caller's \<^verbatim>\<open>observe()\<close>, made with no \<^verbatim>\<open>reset()\<close> in
  between, while the first caller's producer run is still in flight and the state has
  only been \<^verbatim>\<open>NOT_INITIALIZED\<close> or \<^verbatim>\<open>PENDING\<close>, starts a second producer run
  beside it and is handed another promise: the two callers can receive different
  values. (With no activation ending in between, every caller gets the same promise:
  \<open>single_flight\<close>; and without a \<^verbatim>\<open>reset()\<close> in flight only the tracked
  activation can end: \<open>quiet_completes_tracked\<close>.)
\<close>

theorem stale_failure_splits_callers:
  "(let w = exec constructor [Initialize, Reset];
        es = [Observe, Settle 0 (Inl e1), Settle 0 (Inl e2), Settle 0 (Inl e3), Observe];
        w' = exec w (es @ [Settle 1 (Inr v1), Settle 2 (Inr v2)])
    in Reset \<notin> set es
       \<and> getState w = NOT_INITIALIZED
       \<and> getState (exec w (take 1 es)) = PENDING
       \<and> getState (exec w (take 3 es)) = PENDING
       \<and> getState (exec w (take 4 es)) = NOT_INITIALIZED
       \<and> promises (exec w (take 4 es)) ! 1 = Running 3 1
       \<and> handles w es = [Some 1, Some 2]
       \<and> length (promises (exec w es)) = length (promises w) + 2
       \<and> active (exec w es) = 2
       \<and> awaited w' (Some 1) = Some (Inr (Some v1))
       \<and> awaited w' (Some 2) = Some (Inr (Some v2)))"
  by (simp add: constructor_def steps active_def Let_def)

text \<open>
  C5: \<^verbatim>\<open>initialize()\<close>, then \<^verbatim>\<open>reset()\<close> while the producer is running, then the
  producer succeeds. The \<^verbatim>\<open>.then\<close> handler of the activation that was reset away
  still sets \<^verbatim>\<open>INITIALIZED\<close>, while the handle stays cleared: the state is
  \<^verbatim>\<open>INITIALIZED\<close>, the handle is unset, and \<^verbatim>\<open>initialize()\<close> and
  \<^verbatim>\<open>observe()\<close> return \<^verbatim>\<open>undefined\<close>, which a caller awaits to no value of
  \<^verbatim>\<open>T\<close>. (Without a \<^verbatim>\<open>reset()\<close> in flight this cannot happen:
  \<open>quiet_initialized\<close>.)
\<close>

theorem initialized_without_handle:
  "(let w = exec constructor [Initialize, Reset, Settle 0 (Inr v)]
    in getState (exec constructor [Initialize, Reset]) = NOT_INITIALIZED
       \<and> getState w = INITIALIZED
       \<and> initializationPromise w = None
       \<and> handles w [Initialize] = [None]
       \<and> handles w [Observe] = [None]
       \<and> awaited (exec w [Initialize]) None = Some (Inr None)
       \<and> inflight_resets constructor [Initialize, Reset, Settle 0 (Inr v)] = 1)"
  by (simp add: constructor_def steps active_def Let_def)

text \<open>
  C7: the handlers of an activation that was reset away move the state outside the
  specification's state machine. After \<^verbatim>\<open>initialize(); reset()\<close> the success of the
  old activation takes \<^verbatim>\<open>NOT_INITIALIZED\<close> straight to \<^verbatim>\<open>INITIALIZED\<close>. After
  \<^verbatim>\<open>initialize(); reset(); initialize()\<close> and the success of the new activation, the
  third failure of the old one takes \<^verbatim>\<open>INITIALIZED\<close> to \<^verbatim>\<open>NOT_INITIALIZED\<close>
  with no \<^verbatim>\<open>reset()\<close>. (Without a \<^verbatim>\<open>reset()\<close> in flight every step is a
  transition of the state machine: \<open>quiet_transitions\<close>.)
\<close>

theorem stale_completion_moves_state:
  "(let w1 = exec constructor [Initialize, Reset];
        w2 = exec constructor [Initialize, Reset, Initialize, Settle 1 (Inr v),
                               Settle 0 (Inl e1), Settle 0 (Inl e2)]
    in getState w1 = NOT_INITIALIZED
       \<and> getState (step w1 (Settle 0 (Inr v))) = INITIALIZED
       \<and> \<not> spec_transition (getState w1) (Settle 0 (Inr v)) (getState (step w1 (Settle 0 (Inr v))))
       \<and> getState w2 = INITIALIZED
       \<and> getState (step w2 (Settle 0 (Inl e3))) = NOT_INITIALIZED
       \<and> \<not> spec_transition (getState w2) (Settle 0 (Inl e3)) (getState (step w2 (Settle 0 (Inl e3)))))"
  by (simp add: constructor_def steps Let_def)

text \<open>
  C4: after \<^verbatim>\<open>initialize(); reset(); initialize()\<close> the new activation succeeds,
  and a call returns the cached promise without calling the producer. Then the old
  activation fails for the third time: its \<^verbatim>\<open>.catch\<close> handler clears the state and
  the handle of the successful attempt, and with no \<^verbatim>\<open>reset()\<close> since the success
  the next \<^verbatim>\<open>initialize()\<close> calls the producer again and returns a new, unsettled
  promise. (Without a \<^verbatim>\<open>reset()\<close> in flight the cached promise is returned until
  the next \<^verbatim>\<open>reset()\<close>: \<open>quiet_cache\<close>.)
\<close>

theorem cached_value_lost:
  "(let w = exec constructor [Initialize, Reset, Initialize, Settle 1 (Inr v)];
        w' = exec w [Settle 0 (Inl e1), Settle 0 (Inl e2), Settle 0 (Inl e3)]
    in getState w = INITIALIZED
       \<and> handles w [Initialize] = [Some 1]
       \<and> awaited w (Some 1) = Some (Inr (Some v))
       \<and> invocations (step w Initialize) = invocations w
       \<and> getState w' = NOT_INITIALIZED
       \<and> initializationPromise w' = None
       \<and> handles w' [Initialize] = [Some 2]
       \<and> awaited (step w' Initialize) (Some 2) = None
       \<and> invocations (step w' Initialize) = invocations w' + 1)"
  by (simp add: constructor_def steps Let_def)

end
